theory Spec2Isabelle
  imports Main "HOL-Library.Sublist"
begin

section \<open>The link checker: a crawl confined to a URL prefix\<close>

text \<open>
  A shallow embedding of \<^verbatim>\<open>linkchecker2.py\<close>. The program talks to three things
  outside of it: the network (\<^verbatim>\<open>requests.get\<close>), the file system (the pickled crawl
  state and the CSV report) and the terminal (\<^verbatim>\<open>print\<close>). Each of them is a field of
  the record \<open>sys\<close> that every effectful function takes and returns. The libraries
  (\<^verbatim>\<open>requests\<close>, \<^verbatim>\<open>urllib.parse\<close>, \<^verbatim>\<open>BeautifulSoup\<close>) and the order in which Python
  walks a set are parameters, collected in the record \<open>world\<close>: every theorem holds for
  every network, every parser and every set order.
\<close>

subsection \<open>What the program can observe and do\<close>

text \<open>
  The trace is the sequence, in program order, of the GET requests sent (with the URL and
  the \<^verbatim>\<open>timeout\<close> argument, \<open>None\<close> when the call gives none) and of the lines
  printed.
\<close>

datatype event = HttpGet string "nat option" | Print string

text \<open>The three parts of a \<^verbatim>\<open>requests.Response\<close> that the program reads.\<close>

record response =
  status_code :: int
  headers :: "string \<Rightarrow> string option"
  text_of :: string

text \<open>
  \<^verbatim>\<open>requests.get\<close> returns a response or raises; the exceptions of the library all
  derive from \<^verbatim>\<open>RequestException\<close> (timeout, connection error, invalid URL, ...),
  which is the class the three handlers of the program catch. The string is the
  exception's message.
\<close>

datatype fetch_result = Response response | RequestException string

text \<open>
  A parsed document, as BeautifulSoup presents it: tags with a name, attributes and
  children, and text.
\<close>

datatype node = Tag string "(string \<times> string) list" "node list" | NavigableString string

text \<open>
  The environment. The answer of the network may depend on everything that happened
  before (the trace), on the URL and on the timeout. \<open>urlparse\<close> gives the scheme and
  the network location of a URL. \<open>str_order\<close> and \<open>pair_order\<close> say which element
  of a set (of strings, of pairs) Python's hash order puts first; they may depend on the
  trace as well.
\<close>

record world =
  http_get :: "event list \<Rightarrow> string \<Rightarrow> nat option \<Rightarrow> fetch_result"
  urlparse :: "string \<Rightarrow> string \<times> string"
  urljoin :: "string \<Rightarrow> string \<Rightarrow> string"
  html_parser :: "string \<Rightarrow> node"
  str_order :: "event list \<Rightarrow> string list \<Rightarrow> nat"
  pair_order :: "event list \<Rightarrow> (string \<times> string) list \<Rightarrow> nat"

text \<open>
  The state outside the program: the trace, the file \<^verbatim>\<open>crawl_state.pkl\<close> (\<open>None\<close>
  when it does not exist, else the pickled pair of sets) and the CSV files by name, each
  the list of its rows.
\<close>

record sys =
  trace :: "event list"
  state_file :: "(string list \<times> string list) option"
  csv_files :: "string \<Rightarrow> string list list"

definition requests_get :: "world \<Rightarrow> string \<Rightarrow> nat option \<Rightarrow> sys \<Rightarrow> fetch_result \<times> sys" where
  "requests_get w url timeout s =
     (http_get w (trace s) url timeout, s\<lparr>trace := trace s @ [HttpGet url timeout]\<rparr>)"

definition py_print :: "string \<Rightarrow> sys \<Rightarrow> sys" where
  "py_print line s = s\<lparr>trace := trace s @ [Print line]\<rparr>"

definition writerow :: "string \<Rightarrow> string list \<Rightarrow> sys \<Rightarrow> sys" where
  "writerow csv_filename row s =
     s\<lparr>csv_files := (csv_files s)(csv_filename := csv_files s csv_filename @ [row])\<rparr>"

subsection \<open>Python sets\<close>

text \<open>
  A set is a list read through \<open>set\<close>: \<open>set_add\<close> adds an element that is not there
  yet, and removal removes every occurrence, so that a list with repetitions (which the
  state file could hold) behaves as the set of its elements.
\<close>

definition set_add :: "'a \<Rightarrow> 'a list \<Rightarrow> 'a list" where
  "set_add x xs = (if x \<in> set xs then xs else xs @ [x])"

text \<open>
  Iterating a set: the order is Python's, not the program's. \<open>order\<close> picks the index
  of the next element among those that remain, so every order of the elements is the
  result for some \<open>order\<close>, and every \<open>order\<close> gives each element once.
\<close>

function set_iter :: "('a list \<Rightarrow> nat) \<Rightarrow> 'a list \<Rightarrow> 'a list" where
  "set_iter order xs =
     (if xs = [] then []
      else let x = xs ! (order xs mod length xs) in x # set_iter order (removeAll x xs))"
  by pat_completeness auto
termination
proof (relation "measure (\<lambda>(order, xs). length xs)")
  show "wf (measure (\<lambda>(order, xs). length xs))" by simp
next
  fix order :: "'a list \<Rightarrow> nat" and xs :: "'a list" and x
  assume ne: "xs \<noteq> []" and x: "x = xs ! (order xs mod length xs)"
  from ne have "order xs mod length xs < length xs" by simp
  with x have "x \<in> set xs" by simp
  then have "length (removeAll x xs) < length xs"
    by (simp add: length_removeAll_less)
  then show "((order, removeAll x xs), (order, xs)) \<in> measure (\<lambda>(order, xs). length xs)"
    by simp
qed

declare set_iter.simps [simp del]

text \<open>
  \<^verbatim>\<open>s.pop()\<close> removes and returns the element that the iteration would give first; on
  the empty set it raises \<^verbatim>\<open>KeyError\<close>, which is \<open>None\<close> here.
\<close>

definition set_pop :: "('a list \<Rightarrow> nat) \<Rightarrow> 'a list \<Rightarrow> ('a \<times> 'a list) option" where
  "set_pop order xs =
     (if xs = [] then None
      else let x = xs ! (order xs mod length xs) in Some (x, removeAll x xs))"

subsection \<open>The URL classifier\<close>

definition is_valid_url :: "world \<Rightarrow> string \<Rightarrow> bool" where
  "is_valid_url w url = (case urlparse w url of (scheme, netloc) \<Rightarrow> netloc \<noteq> [] \<and> scheme \<noteq> [])"

definition is_same_or_subpath :: "string \<Rightarrow> string \<Rightarrow> bool" where
  "is_same_or_subpath url base_url = prefix base_url url"

definition is_html :: "response \<Rightarrow> bool" where
  "is_html response =
     (let content_type = (case headers response ''Content-Type'' of None \<Rightarrow> [] | Some v \<Rightarrow> v)
      in sublist ''text/html'' content_type)"

subsection \<open>The link verifier\<close>

definition check_link :: "world \<Rightarrow> string \<Rightarrow> sys \<Rightarrow> string \<times> sys" where
  "check_link w url s =
     (case requests_get w url (Some 10) s of
        (Response response, s') \<Rightarrow>
          (if status_code response = 200 then ''Working'' else ''Broken'', s')
      | (RequestException e, s') \<Rightarrow> (''Broken'', s'))"

subsection \<open>The link extractor\<close>

text \<open>\<^verbatim>\<open>find_all\<close> searches the descendants of a node, in document order.\<close>

fun descendants :: "node \<Rightarrow> node list" where
  "descendants (Tag name attrs children) = concat (map (\<lambda>c. c # descendants c) children)"
| "descendants (NavigableString t) = []"

fun get_attr :: "node \<Rightarrow> string \<Rightarrow> string option" where
  "get_attr (Tag name attrs children) key = map_of attrs key"
| "get_attr (NavigableString t) key = None"

fun matches :: "string \<Rightarrow> string option \<Rightarrow> node \<Rightarrow> bool" where
  "matches name None (Tag name' attrs children) = (name' = name)"
| "matches name (Some key) (Tag name' attrs children) = (name' = name \<and> map_of attrs key \<noteq> None)"
| "matches name required (NavigableString t) = False"

text \<open>
  \<open>find_all name None\<close> is \<^verbatim>\<open>find_all(name)\<close> and \<open>find_all name (Some ''href'')\<close>
  is \<^verbatim>\<open>find_all(name, href=True)\<close>.
\<close>

definition find_all :: "string \<Rightarrow> string option \<Rightarrow> node \<Rightarrow> node list" where
  "find_all name required n = filter (matches name required) (descendants n)"

text \<open>
  The body of the inner loop of \<open>extract_menu_links\<close>. \<^verbatim>\<open>link["href"]\<close> is there for
  every anchor that \<^verbatim>\<open>find_all("a", href=True)\<close> returns.
\<close>

definition add_menu_link :: "world \<Rightarrow> string \<Rightarrow> node \<Rightarrow> string list \<Rightarrow> string list" where
  "add_menu_link w url link links =
     (case get_attr link ''href'' of
        None \<Rightarrow> links
      | Some href \<Rightarrow>
          (let full_url = urljoin w url href
           in if is_valid_url w full_url then set_add full_url links else links))"

definition extract_menu_links :: "world \<Rightarrow> string \<Rightarrow> sys \<Rightarrow> string list \<times> sys" where
  "extract_menu_links w url s =
     (case requests_get w url None s of
        (Response response, s') \<Rightarrow>
          (if \<not> is_html response then ([], s')
           else let soup = html_parser w (text_of response);
                    nav_tags = find_all ''nav'' None soup
                in (fold (\<lambda>nav links.
                            fold (add_menu_link w url) (find_all ''a'' (Some ''href'') nav) links)
                      nav_tags [], s'))
      | (RequestException e, s') \<Rightarrow>
          ([], py_print (''Error accessing '' @ url @ '': '' @ e) s'))"

definition add_body_link ::
  "world \<Rightarrow> string \<Rightarrow> string list \<Rightarrow> node \<Rightarrow> (string \<times> string) list \<Rightarrow> (string \<times> string) list" where
  "add_body_link w url menu_links link links =
     (case get_attr link ''href'' of
        None \<Rightarrow> links
      | Some href \<Rightarrow>
          (let full_url = urljoin w url href
           in if is_valid_url w full_url \<and> full_url \<notin> set menu_links
              then set_add (url, full_url) links else links))"

definition get_body_links ::
  "world \<Rightarrow> string \<Rightarrow> string \<Rightarrow> string list \<Rightarrow> sys \<Rightarrow> (string \<times> string) list \<times> sys" where
  "get_body_links w url base_url menu_links s =
     (case requests_get w url None s of
        (Response response, s') \<Rightarrow>
          (if \<not> is_html response then ([], s')
           else let soup = html_parser w (text_of response)
                in (fold (add_body_link w url menu_links) (find_all ''a'' (Some ''href'') soup) [],
                    s'))
      | (RequestException e, s') \<Rightarrow>
          ([], py_print (''Error accessing '' @ url @ '': '' @ e) s'))"

subsection \<open>The crawl state store\<close>

definition save_state :: "string list \<Rightarrow> string list \<Rightarrow> sys \<Rightarrow> sys" where
  "save_state visited links s = s\<lparr>state_file := Some (visited, links)\<rparr>"

definition load_state :: "sys \<Rightarrow> string list \<times> string list" where
  "load_state s = (case state_file s of Some saved \<Rightarrow> saved | None \<Rightarrow> ([], []))"

subsection \<open>The orchestrator\<close>

text \<open>The local variables of \<open>crawl_website\<close> that the loop changes.\<close>

record vars =
  visited_pages :: "string list"
  links_to_crawl :: "string list"
  count_links :: nat

text \<open>\<^verbatim>\<open>str(n)\<close> for a number that is not negative.\<close>

fun str_nat :: "nat \<Rightarrow> string" where
  "str_nat n =
     (if n < 10 then [''0123456789'' ! n]
      else str_nat (n div 10) @ [''0123456789'' ! (n mod 10)])"

declare str_nat.simps [simp del]

text \<open>
  The menu pass (lines 100 to 113): the loop that checks each menu link, and the loop that
  writes the results, after the header row.
\<close>

fun check_menu_links ::
  "world \<Rightarrow> string \<Rightarrow> string list \<Rightarrow> (string \<times> string \<times> string) list \<times> sys
     \<Rightarrow> (string \<times> string \<times> string) list \<times> sys" where
  "check_menu_links w start_url [] (menu_results, s) = (menu_results, s)"
| "check_menu_links w start_url (menu_link # rest) (menu_results, s) =
     (case check_link w menu_link s of
        (status, s1) \<Rightarrow>
          check_menu_links w start_url rest
            (menu_results @ [(start_url, menu_link, status)],
             py_print (status @ '': '' @ menu_link @ '' (found in menu on '' @ start_url @ '')'')
               s1))"

fun write_menu_results :: "string \<Rightarrow> bool \<Rightarrow> (string \<times> string \<times> string) list \<Rightarrow> sys \<Rightarrow> sys" where
  "write_menu_results csv_filename record_only_broken [] s = s"
| "write_menu_results csv_filename record_only_broken ((source, link, status) # rest) s =
     write_menu_results csv_filename record_only_broken rest
       (if \<not> record_only_broken \<or> status = ''Broken''
        then writerow csv_filename [source, link, status] s else s)"

definition menu_pass :: "world \<Rightarrow> string \<Rightarrow> string \<Rightarrow> bool \<Rightarrow> sys \<Rightarrow> string list \<times> sys" where
  "menu_pass w start_url csv_filename record_only_broken s =
     (case extract_menu_links w start_url s of
        (menu_links, s1) \<Rightarrow>
          (case check_menu_links w start_url (set_iter (str_order w (trace s1)) menu_links)
                  ([], s1) of
             (menu_results, s2) \<Rightarrow>
               (menu_links,
                write_menu_results csv_filename record_only_broken menu_results
                  (writerow csv_filename [''Source Page'', ''Link URL'', ''Status''] s2))))"

text \<open>The loop over the body links of one page (lines 132 to 145).\<close>

definition blocklist_prefix :: string where
  "blocklist_prefix = ''https://library2.utm.utoronto.ca/otra/reed/tagged-records''"

fun check_page_links ::
  "world \<Rightarrow> string \<Rightarrow> string \<Rightarrow> bool \<Rightarrow> (string \<times> string) list \<Rightarrow> vars \<times> sys \<Rightarrow> vars \<times> sys" where
  "check_page_links w base_url csv_filename record_only_broken [] (v, s) = (v, s)"
| "check_page_links w base_url csv_filename record_only_broken ((source_page, link_url) # rest)
     (v, s) =
     (if prefix blocklist_prefix link_url
      then check_page_links w base_url csv_filename record_only_broken rest (v, s)
      else
        (case check_link w link_url s of
           (status, s1) \<Rightarrow>
             (let v1 = v\<lparr>count_links := count_links v + 1\<rparr>;
                  s2 = py_print (status @ '': '' @ link_url @ '' (found on '' @ source_page @ '')'')
                         s1;
                  s3 = (if \<not> record_only_broken \<or> status = ''Broken''
                        then writerow csv_filename [source_page, link_url, status] s2 else s2);
                  v2 = (if is_same_or_subpath link_url base_url
                          \<and> link_url \<notin> set (visited_pages v1)
                        then v1\<lparr>links_to_crawl := set_add link_url (links_to_crawl v1)\<rparr>
                        else v1)
              in check_page_links w base_url csv_filename record_only_broken rest (v2, s3))))"

text \<open>
  What the loop does with the page it popped (lines 123 to 148): nothing if the page was
  visited before or is out of scope; else the page is marked visited, its body links are
  fetched and checked, and the state is saved.
\<close>

definition crawl_page ::
  "world \<Rightarrow> string \<Rightarrow> string \<Rightarrow> bool \<Rightarrow> string list \<Rightarrow> string \<Rightarrow> vars \<times> sys \<Rightarrow> vars \<times> sys" where
  "crawl_page w base_url csv_filename record_only_broken menu_links current_page st =
     (case st of (v, s) \<Rightarrow>
        if current_page \<notin> set (visited_pages v) \<and> is_same_or_subpath current_page base_url
        then
          (let v1 = v\<lparr>visited_pages := set_add current_page (visited_pages v)\<rparr>;
               s1 = py_print (''Crawling and checking links on: '' @ current_page) s
           in case get_body_links w current_page base_url menu_links s1 of
                (page_links, s2) \<Rightarrow>
                  (case check_page_links w base_url csv_filename record_only_broken
                          (set_iter (pair_order w (trace s2)) page_links) (v1, s2) of
                     (v2, s3) \<Rightarrow> (v2, save_state (visited_pages v2) (links_to_crawl v2) s3)))
        else (v, s))"

text \<open>
  One evaluation of \<^verbatim>\<open>while links_to_crawl:\<close> with its body: \<open>None\<close> when the set is
  empty (the loop ends), else the state after the pop and the body.
\<close>

definition crawl_iteration ::
  "world \<Rightarrow> string \<Rightarrow> string \<Rightarrow> bool \<Rightarrow> string list \<Rightarrow> vars \<times> sys \<Rightarrow> (vars \<times> sys) option" where
  "crawl_iteration w base_url csv_filename record_only_broken menu_links st =
     (case st of (v, s) \<Rightarrow>
        (case set_pop (str_order w (trace s)) (links_to_crawl v) of
           None \<Rightarrow> None
         | Some (current_page, rest) \<Rightarrow>
             Some (crawl_page w base_url csv_filename record_only_broken menu_links current_page
                     (v\<lparr>links_to_crawl := rest\<rparr>, s))))"

text \<open>
  The loop. Nothing bounds the number of pages of a site, so the loop need not end:
  \<open>crawl_loop\<close> is \<open>None\<close> when it does not, and \<open>crawl_steps k\<close> is the state after
  the first \<open>k\<close> iterations (or after the last one, if the loop ends before).
\<close>

partial_function (option) crawl_loop ::
  "world \<Rightarrow> string \<Rightarrow> string \<Rightarrow> bool \<Rightarrow> string list \<Rightarrow> vars \<times> sys \<Rightarrow> (vars \<times> sys) option" where
  "crawl_loop w base_url csv_filename record_only_broken menu_links st =
     (case crawl_iteration w base_url csv_filename record_only_broken menu_links st of
        None \<Rightarrow> Some st
      | Some st' \<Rightarrow> crawl_loop w base_url csv_filename record_only_broken menu_links st')"

declare crawl_loop.simps [code]

fun crawl_steps ::
  "nat \<Rightarrow> world \<Rightarrow> string \<Rightarrow> string \<Rightarrow> bool \<Rightarrow> string list \<Rightarrow> vars \<times> sys \<Rightarrow> vars \<times> sys" where
  "crawl_steps 0 w base_url csv_filename record_only_broken menu_links st = st"
| "crawl_steps (Suc k) w base_url csv_filename record_only_broken menu_links st =
     (case crawl_iteration w base_url csv_filename record_only_broken menu_links st of
        None \<Rightarrow> st
      | Some st' \<Rightarrow> crawl_steps k w base_url csv_filename record_only_broken menu_links st')"

text \<open>
  Lines 92 to 118, up to the loop: the state is loaded, a fresh run seeds the frontier, and
  the menu pass runs if no page was visited yet. The result is the menu links and the
  state in which the loop starts.
\<close>

definition crawl_init ::
  "world \<Rightarrow> string \<Rightarrow> string \<Rightarrow> bool \<Rightarrow> sys \<Rightarrow> string list \<times> vars \<times> sys" where
  "crawl_init w start_url csv_filename record_only_broken s =
     (case load_state s of
        (visited, loaded) \<Rightarrow>
          (let links = (if visited = [] \<and> loaded = [] then set_add start_url loaded else loaded)
           in case (if visited = [] then menu_pass w start_url csv_filename record_only_broken s
                    else ([], s)) of
                (menu_links, s1) \<Rightarrow>
                  (menu_links,
                   \<lparr>visited_pages = visited, links_to_crawl = links, count_links = 0\<rparr>, s1)))"

definition crawl_website ::
  "world \<Rightarrow> string \<Rightarrow> string \<Rightarrow> string \<Rightarrow> bool \<Rightarrow> sys \<Rightarrow> sys option" where
  "crawl_website w start_url base_url csv_filename record_only_broken s =
     (case crawl_init w start_url csv_filename record_only_broken s of
        (menu_links, st) \<Rightarrow>
          (case crawl_loop w base_url csv_filename record_only_broken menu_links st of
             None \<Rightarrow> None
           | Some (v, s') \<Rightarrow>
               Some (py_print (''Total number of links checked: '' @ str_nat (count_links v)) s')))"

text \<open>The run cut after \<open>k\<close> iterations of the loop: every state a run passes through
  at the head of the loop is \<open>crawl_prefix k\<close> for some \<open>k\<close>.\<close>

definition crawl_prefix ::
  "nat \<Rightarrow> world \<Rightarrow> string \<Rightarrow> string \<Rightarrow> string \<Rightarrow> bool \<Rightarrow> sys \<Rightarrow> vars \<times> sys" where
  "crawl_prefix k w start_url base_url csv_filename record_only_broken s =
     (case crawl_init w start_url csv_filename record_only_broken s of
        (menu_links, st) \<Rightarrow>
          crawl_steps k w base_url csv_filename record_only_broken menu_links st)"

subsection \<open>Reading a run\<close>

text \<open>
  The pages a trace shows as visited: the URLs of the lines
  \<^verbatim>\<open>Crawling and checking links on: ...\<close>, which the loop prints when it marks a page
  visited and before it fetches the page's body links. The prefix has 32 characters.
\<close>

fun visit_of :: "event \<Rightarrow> string list" where
  "visit_of (Print line) =
     (if prefix ''Crawling and checking links on: '' line then [drop 32 line] else [])"
| "visit_of (HttpGet url timeout) = []"

definition visits :: "event list \<Rightarrow> string list" where
  "visits tr = concat (map visit_of tr)"

text \<open>The GET requests of a trace, each with its timeout.\<close>

fun request_of :: "event \<Rightarrow> (string \<times> nat option) list" where
  "request_of (HttpGet url timeout) = [(url, timeout)]"
| "request_of (Print line) = []"

definition requests :: "event list \<Rightarrow> (string \<times> nat option) list" where
  "requests tr = concat (map request_of tr)"

text \<open>The requests that \<open>check_link\<close> sent: it is the only function that gives a
  timeout, and the timeout is 10.\<close>

definition check_link_calls :: "event list \<Rightarrow> nat" where
  "check_link_calls tr = length (filter (\<lambda>r. snd r = Some 10) (requests tr))"

text \<open>What a run added: the events after those of the state it started in, and the rows
  after those the report file had.\<close>

definition new_events :: "sys \<Rightarrow> sys \<Rightarrow> event list" where
  "new_events s s' = drop (length (trace s)) (trace s')"

definition new_rows :: "string \<Rightarrow> sys \<Rightarrow> sys \<Rightarrow> string list list" where
  "new_rows csv_filename s s' = drop (length (csv_files s csv_filename)) (csv_files s' csv_filename)"

definition header_row :: "string list" where
  "header_row = [''Source Page'', ''Link URL'', ''Status'']"

text \<open>
  A data row has a source page, a link and one of the two statuses; under
  \<open>record_only_broken\<close> the status is \<^verbatim>\<open>Broken\<close>.
\<close>

definition data_row :: "bool \<Rightarrow> string list \<Rightarrow> bool" where
  "data_row record_only_broken r =
     (\<exists>source link. r = [source, link, ''Broken'']
        \<or> (r = [source, link, ''Working''] \<and> \<not> record_only_broken))"

text \<open>The number of header rows among the rows a run added.\<close>

definition headers_written :: "string \<Rightarrow> sys \<Rightarrow> sys \<Rightarrow> nat" where
  "headers_written f s s' = count_list (new_rows f s s') header_row"

text \<open>Helper relations for the proofs. \<open>quiet s s'\<close>: the trace of \<open>s'\<close> extends
  that of \<open>s\<close>, and the extension shows no visit.\<close>

definition quiet :: "sys \<Rightarrow> sys \<Rightarrow> bool" where
  "quiet s s' \<longleftrightarrow> (\<exists>new. trace s' = trace s @ new \<and> visits new = [])"

text \<open>\<open>appends rob f s s'\<close>: file \<open>f\<close> of \<open>s'\<close> is that of \<open>s\<close> followed by
  data rows.\<close>

definition appends :: "bool \<Rightarrow> string \<Rightarrow> sys \<Rightarrow> sys \<Rightarrow> bool" where
  "appends rob f s s' \<longleftrightarrow>
     (\<exists>rows. csv_files s' f = csv_files s f @ rows \<and> list_all (data_row rob) rows)"

text \<open>The requests that the loop over the body links sends for a list of (source, link)
  pairs: one check for each link outside the blocklist.\<close>

definition checks :: "(string \<times> string) list \<Rightarrow> (string \<times> nat option) list" where
  "checks ls = map (\<lambda>l. (l, Some 10)) (filter (\<lambda>l. \<not> prefix blocklist_prefix l) (map snd ls))"

text \<open>What relates a state at the head of the loop to any later one.\<close>

definition run_inv :: "bool \<Rightarrow> string \<Rightarrow> string \<Rightarrow> vars \<times> sys \<Rightarrow> vars \<times> sys \<Rightarrow> bool" where
  "run_inv rob f base_url st st' \<longleftrightarrow>
     (\<exists>new. trace (snd st') = trace (snd st) @ new
        \<and> visited_pages (fst st') = visited_pages (fst st) @ visits new
        \<and> distinct (visits new)
        \<and> set (visits new) \<inter> set (visited_pages (fst st)) = {}
        \<and> count_links (fst st')
            = count_links (fst st) + length (filter (\<lambda>r. snd r = Some 10) (requests new)))
     \<and> appends rob f (snd st) (snd st')
     \<and> set (links_to_crawl (fst st'))
          \<subseteq> set (links_to_crawl (fst st)) \<union> {l. is_same_or_subpath l base_url}"

subsection \<open>A small site to run the program on\<close>

text \<open>
  The scenario of the specification: the start page \<^verbatim>\<open>http://h/\<close> has a navigation link
  to \<^verbatim>\<open>/about\<close> (200), a body link to \<^verbatim>\<open>/contact\<close> (404), a link to another
  host, which does not answer, a link under the blocklist prefix, and two anchors that give
  no valid URL.
\<close>

definition html_ok :: "string \<Rightarrow> fetch_result" where
  "html_ok body =
     Response \<lparr>status_code = 200, headers = [''Content-Type'' \<mapsto> ''text/html; charset=utf-8''],
       text_of = body\<rparr>"

definition demo_site :: world where
  "demo_site = \<lparr>
     http_get = (\<lambda>tr url timeout.
        if url = ''http://h/'' then html_ok ''home''
        else if url = ''http://h/about'' then html_ok ''about''
        else if url = ''http://h/contact''
          then Response \<lparr>status_code = 404, headers = Map.empty, text_of = []\<rparr>
        else RequestException ''unreachable''),
     urlparse = (\<lambda>url. if prefix ''http://h/'' url then (''http'', ''h'')
        else if prefix ''https://external.example/'' url then (''https'', ''external.example'')
        else if prefix ''https://library2.utm.utoronto.ca/'' url
          then (''https'', ''library2.utm.utoronto.ca'')
        else ([], [])),
     urljoin = (\<lambda>base href. if prefix ''/'' href then ''http://h'' @ href else href),
     html_parser = (\<lambda>body. if body = ''home''
        then Tag ''[document]'' []
               [Tag ''nav'' [] [Tag ''a'' [(''href'', ''/about'')] [NavigableString ''About'']],
                Tag ''a'' [(''href'', ''/contact'')] [],
                Tag ''a'' [(''href'', ''https://external.example/'')] [],
                Tag ''a''
                  [(''href'', ''https://library2.utm.utoronto.ca/otra/reed/tagged-records/1'')] [],
                Tag ''a'' [(''href'', ''mailto'')] [],
                Tag ''a'' [] []]
        else Tag ''[document]'' [] []),
     str_order = (\<lambda>tr xs. 0),
     pair_order = (\<lambda>tr xs. 0)\<rparr>"

text \<open>No state file and no report yet; a crawl that was interrupted; a crawl that is
  complete.\<close>

definition fresh :: sys where
  "fresh = \<lparr>trace = [], state_file = None, csv_files = (\<lambda>name. [])\<rparr>"

definition resumed :: sys where
  "resumed = \<lparr>trace = [], state_file = Some ([''http://h/about''], [''http://h/'']),
     csv_files = (\<lambda>name. [])\<rparr>"

definition completed :: sys where
  "completed = \<lparr>trace = [], state_file = Some ([''http://h/'', ''http://h/contact''], []),
     csv_files = (\<lambda>name. [])\<rparr>"


section \<open>Properties\<close>

subsection \<open>The effects of the primitives\<close>

lemma requests_get_simps [simp]:
  "trace (snd (requests_get w url timeout s)) = trace s @ [HttpGet url timeout]"
  "csv_files (snd (requests_get w url timeout s)) = csv_files s"
  "state_file (snd (requests_get w url timeout s)) = state_file s"
  "fst (requests_get w url timeout s) = http_get w (trace s) url timeout"
  by (simp_all add: requests_get_def)

lemma py_print_simps [simp]:
  "trace (py_print line s) = trace s @ [Print line]"
  "csv_files (py_print line s) = csv_files s"
  "state_file (py_print line s) = state_file s"
  by (simp_all add: py_print_def)

lemma writerow_simps [simp]:
  "trace (writerow f row s) = trace s"
  "csv_files (writerow f row s) g = (if g = f then csv_files s f @ [row] else csv_files s g)"
  "state_file (writerow f row s) = state_file s"
  by (simp_all add: writerow_def)

lemma save_state_simps [simp]:
  "trace (save_state v l s) = trace s"
  "csv_files (save_state v l s) = csv_files s"
  "state_file (save_state v l s) = Some (v, l)"
  by (simp_all add: save_state_def)

lemma set_pop_Nil [simp]: "set_pop order [] = None"
  by (simp add: set_pop_def)

lemma new_events_append [simp]: "trace s' = trace s @ new \<Longrightarrow> new_events s s' = new"
  by (simp add: new_events_def)

lemma requests_append [simp]: "requests (xs @ ys) = requests xs @ requests ys"
  by (simp add: requests_def)

lemma requests_simps [simp]:
  "requests [] = []"
  "requests (HttpGet url timeout # tr) = (url, timeout) # requests tr"
  "requests (Print line # tr) = requests tr"
  by (simp_all add: requests_def)

subsection \<open>The link verifier\<close>

lemma check_link_effect:
  assumes "check_link w url s = (status, s')"
  shows "trace s' = trace s @ [HttpGet url (Some 10)]"
    and "csv_files s' = csv_files s"
    and "state_file s' = state_file s"
    and "status = ''Working'' \<or> status = ''Broken''"
  using assms
  by (auto simp: check_link_def requests_get_def split: fetch_result.splits if_splits)



subsection \<open>The link extractor\<close>



text \<open>
  C10. The argument \<open>base_url\<close> of \<open>get_body_links\<close> has no effect: with the same
  page, the same menu links and the same state of the world, any two values of it give the
  same links (and the same effects).
\<close>

theorem get_body_links_ignores_base_url:
  "get_body_links w url b1 menu_links s = get_body_links w url b2 menu_links s"
  by (simp add: get_body_links_def)

text \<open>
  C5. Only \<open>check_link\<close> gives a timeout. Each of the three functions sends exactly one
  GET request for its URL: \<open>check_link\<close> with \<^verbatim>\<open>timeout=10\<close>, \<open>extract_menu_links\<close>
  and \<open>get_body_links\<close> with no timeout at all, so that the claim fails for the two
  extraction fetches at every URL.
\<close>

theorem extraction_fetch_has_no_timeout:
  "requests (new_events s (snd (extract_menu_links w url s))) = [(url, None)]
   \<and> requests (new_events s (snd (get_body_links w url base_url menu_links s))) = [(url, None)]
   \<and> requests (new_events s (snd (check_link w url s))) = [(url, Some 10)]"
  by (simp add: extract_menu_links_def get_body_links_def check_link_def requests_get_def
        new_events_def split: fetch_result.splits)

subsection \<open>A crawl that is complete\<close>

text \<open>
  C3. Started from a saved state with an empty frontier and a visited set that is not
  empty, \<open>crawl_website\<close> ends at once: the final state is the initial one with the
  summary line added to the trace. No request is sent, no row is written to any file,
  and the state file is left as it was.
\<close>

theorem completed_crawl_is_noop:
  assumes "state_file s = Some (visited, [])" and "visited \<noteq> []"
  shows "crawl_website w start_url base_url csv_filename record_only_broken s
           = Some (s\<lparr>trace := trace s @ [Print ''Total number of links checked: 0'']\<rparr>)"
proof -
  from assms have init: "crawl_init w start_url csv_filename record_only_broken s
      = ([], \<lparr>visited_pages = visited, links_to_crawl = [], count_links = 0\<rparr>, s)"
    by (simp add: crawl_init_def load_state_def)
  have "crawl_iteration w base_url csv_filename record_only_broken []
          (\<lparr>visited_pages = visited, links_to_crawl = [], count_links = 0\<rparr>, s) = None"
    by (simp add: crawl_iteration_def)
  then have loop: "crawl_loop w base_url csv_filename record_only_broken []
          (\<lparr>visited_pages = visited, links_to_crawl = [], count_links = 0\<rparr>, s)
        = Some (\<lparr>visited_pages = visited, links_to_crawl = [], count_links = 0\<rparr>, s)"
    by (subst crawl_loop.simps) simp
  have "str_nat 0 = ''0''"
    by (subst str_nat.simps) simp
  with init loop show ?thesis
    by (simp add: crawl_website_def py_print_def)
qed

theorem completed_crawl_is_noop_witness:
  "map_option trace
     (crawl_website demo_site ''http://h/'' ''http://h/'' ''report.csv'' True completed)
     = Some [Print ''Total number of links checked: 0'']
   \<and> map_option (new_rows ''report.csv'' completed)
        (crawl_website demo_site ''http://h/'' ''http://h/'' ''report.csv'' True completed)
     = Some []"
proof -
  have h: "state_file completed = Some ([''http://h/'', ''http://h/contact''], [])"
    "[''http://h/'', ''http://h/contact''] \<noteq> []"
    by (simp_all add: completed_def)
  show ?thesis
    using completed_crawl_is_noop
      [OF h, of demo_site "''http://h/''" "''http://h/''" "''report.csv''" True]
    by (simp add: completed_def new_rows_def)
qed

subsection \<open>Traces\<close>

text \<open>Of all the lines the program prints, only the announcement of a visit counts as one.\<close>

lemma visits_append [simp]: "visits (xs @ ys) = visits xs @ visits ys"
  by (simp add: visits_def)

lemma visits_simps [simp]:
  "visits [] = []"
  "visits (HttpGet url timeout # tr) = visits tr"
  "visits (Print line # tr) = visit_of (Print line) @ visits tr"
  by (simp_all add: visits_def)

lemma visit_of_crawling [simp]:
  "visit_of (Print (''Crawling and checking links on: '' @ url)) = [url]"
  by simp

lemma visit_of_status_line [simp]:
  "status = ''Working'' \<or> status = ''Broken'' \<Longrightarrow> visit_of (Print (status @ rest)) = []"
  by auto

lemma visit_of_error_line [simp]: "visit_of (Print (''Error accessing '' @ rest)) = []"
  by simp

text \<open>The extractors send their request, perhaps print an error, and touch no file.\<close>

lemma quiet_refl [simp]: "quiet s s"
  by (simp add: quiet_def)

lemma quiet_trans: "quiet s s1 \<Longrightarrow> quiet s1 s2 \<Longrightarrow> quiet s s2"
  by (auto simp: quiet_def)

lemma extract_menu_links_effect:
  assumes "extract_menu_links w url s = (links, s')"
  shows "quiet s s'" and "csv_files s' = csv_files s" and "state_file s' = state_file s"
  using assms
  by (auto simp: extract_menu_links_def requests_get_def quiet_def
      split: fetch_result.splits if_splits)

lemma get_body_links_effect:
  assumes "get_body_links w url base_url menu_links s = (links, s')"
  shows "quiet s s'" and "csv_files s' = csv_files s" and "state_file s' = state_file s"
  using assms
  by (auto simp: get_body_links_def requests_get_def quiet_def
      split: fetch_result.splits if_splits)

subsection \<open>The loop over the body links\<close>

text \<open>
  By induction on the list of links: what the loop adds to the trace and to the report,
  and what it does to the variables.
\<close>

lemma appends_refl [simp]: "appends rob f s s"
  by (simp add: appends_def)

lemma appends_trans: "appends rob f s s1 \<Longrightarrow> appends rob f s1 s2 \<Longrightarrow> appends rob f s s2"
  by (auto simp: appends_def)

lemma appends_same: "csv_files s' = csv_files s \<Longrightarrow> appends rob f s s'"
  by (simp add: appends_def)

lemma checks_simps [simp]:
  "checks [] = []"
  "checks ((source, link) # ls) =
     (if prefix blocklist_prefix link then checks ls else (link, Some 10) # checks ls)"
  by (simp_all add: checks_def)

lemma check_page_links_effect:
  "check_page_links w base_url f rob ls (v, s) = (v', s') \<Longrightarrow>
     (\<exists>new. trace s' = trace s @ new \<and> visits new = [] \<and> requests new = checks ls)
     \<and> appends rob f s s'
     \<and> state_file s' = state_file s
     \<and> visited_pages v' = visited_pages v
     \<and> count_links v' = count_links v + length (checks ls)
     \<and> set (links_to_crawl v') = set (links_to_crawl v)
          \<union> {l \<in> snd ` set ls. \<not> prefix blocklist_prefix l \<and> is_same_or_subpath l base_url
                \<and> l \<notin> set (visited_pages v)}"
proof (induction ls arbitrary: v s)
  case Nil
  then show ?case by simp
next
  case (Cons p ls)
  obtain source_page link_url where p: "p = (source_page, link_url)"
    by (cases p)
  show ?case
  proof (cases "prefix blocklist_prefix link_url")
    case True
    with Cons.prems p have "check_page_links w base_url f rob ls (v, s) = (v', s')"
      by simp
    from Cons.IH [OF this] True p show ?thesis
      by auto
  next
    case False
    obtain status s1 where cl: "check_link w link_url s = (status, s1)"
      by (cases "check_link w link_url s")
    note eff = check_link_effect [OF cl]
    define s2 where
      "s2 = py_print (status @ '': '' @ link_url @ '' (found on '' @ source_page @ '')'') s1"
    define s3 where
      "s3 = (if \<not> rob \<or> status = ''Broken'' then writerow f [source_page, link_url, status] s2
             else s2)"
    define v1 where "v1 = v\<lparr>count_links := count_links v + 1\<rparr>"
    define v2 where
      "v2 = (if is_same_or_subpath link_url base_url \<and> link_url \<notin> set (visited_pages v1)
             then v1\<lparr>links_to_crawl := set_add link_url (links_to_crawl v1)\<rparr> else v1)"
    have "check_page_links w base_url f rob (p # ls) (v, s)
            = check_page_links w base_url f rob ls (v2, s3)"
      unfolding p s2_def s3_def v2_def v1_def using False cl
      by (simp add: Let_def)
    with Cons.prems have "check_page_links w base_url f rob ls (v2, s3) = (v', s')"
      by simp
    note IH = Cons.IH [OF this]
    from IH obtain new where new: "trace s' = trace s3 @ new" "visits new = []"
      "requests new = checks ls"
      by blast
    have tr3: "trace s3 = trace s @ [HttpGet link_url (Some 10),
        Print (status @ '': '' @ link_url @ '' (found on '' @ source_page @ '')'')]"
      using eff(1) by (simp add: s3_def s2_def)
    have quiet3: "visits [HttpGet link_url (Some 10),
        Print (status @ '': '' @ link_url @ '' (found on '' @ source_page @ '')'')] = []"
      using eff(4) by auto
    have 1: "\<exists>new. trace s' = trace s @ new \<and> visits new = [] \<and> requests new = checks (p # ls)"
      using new tr3 quiet3 False p by simp
    have "appends rob f s s3"
      using eff(2,4) by (auto simp: appends_def s3_def s2_def data_row_def)
    with IH have 2: "appends rob f s s'"
      by (blast intro: appends_trans)
    have 3: "state_file s' = state_file s"
      using IH eff(3) by (simp add: s3_def s2_def)
    have 4: "visited_pages v' = visited_pages v"
      using IH by (simp add: v2_def v1_def)
    have 5: "count_links v' = count_links v + length (checks (p # ls))"
      using IH False p by (simp add: v2_def v1_def)
    have v2: "visited_pages v2 = visited_pages v"
      "set (links_to_crawl v2) = set (links_to_crawl v)
         \<union> (if is_same_or_subpath link_url base_url \<and> link_url \<notin> set (visited_pages v)
            then {link_url} else {})"
      by (auto simp: v2_def v1_def set_add_def)
    have 6: "set (links_to_crawl v') = set (links_to_crawl v)
          \<union> {l \<in> snd ` set (p # ls). \<not> prefix blocklist_prefix l \<and> is_same_or_subpath l base_url
                \<and> l \<notin> set (visited_pages v)}"
      using IH v2 False p by auto
    from 1 2 3 4 5 6 show ?thesis
      by blast
  qed
qed

subsection \<open>Walking and popping a set\<close>

text \<open>Whatever the order, the walk gives the elements of the set, each once.\<close>

lemma set_iter_set_distinct: "set (set_iter order xs) = set xs \<and> distinct (set_iter order xs)"
proof (induction order xs rule: set_iter.induct)
  case (1 order xs)
  show ?case
  proof (cases "xs = []")
    case True
    then show ?thesis by (simp add: set_iter.simps)
  next
    case False
    define x where "x = xs ! (order xs mod length xs)"
    from False have "order xs mod length xs < length xs" by simp
    then have x: "x \<in> set xs" by (simp add: x_def)
    from "1.IH" [OF False x_def]
    have IH: "set (set_iter order (removeAll x xs)) = set (removeAll x xs)"
      "distinct (set_iter order (removeAll x xs))"
      by simp_all
    have unfold: "set_iter order xs = x # set_iter order (removeAll x xs)"
      using False by (subst set_iter.simps) (simp add: x_def Let_def)
    from IH x show ?thesis
      unfolding unfold by auto
  qed
qed

lemma set_pop_Some:
  assumes "set_pop order xs = Some (x, rest)"
  shows "x \<in> set xs" and "set rest = set xs - {x}"
proof -
  from assms have ne: "xs \<noteq> []" and x: "x = xs ! (order xs mod length xs)"
    and rest: "rest = removeAll x xs"
    by (auto simp: set_pop_def Let_def split: if_splits)
  from ne have "order xs mod length xs < length xs" by simp
  with x show "x \<in> set xs" by simp
  from rest show "set rest = set xs - {x}" by simp
qed

subsection \<open>One page\<close>

lemma crawl_page_skip:
  "\<not> (current_page \<notin> set (visited_pages v) \<and> is_same_or_subpath current_page base_url) \<Longrightarrow>
     crawl_page w base_url f rob menu_links current_page (v, s) = (v, s)"
  by (auto simp: crawl_page_def)

lemma crawl_page_visit:
  assumes new_page: "current_page \<notin> set (visited_pages v)"
      and in_scope: "is_same_or_subpath current_page base_url"
      and body: "get_body_links w current_page base_url menu_links
                   (py_print (''Crawling and checking links on: '' @ current_page) s)
                 = (page_links, s2)"
      and page: "crawl_page w base_url f rob menu_links current_page (v, s) = (v', s')"
  shows "\<exists>new. trace s' = trace s2 @ new \<and> visits new = []
            \<and> requests new = checks (set_iter (pair_order w (trace s2)) page_links)"
    and "visits (new_events s s2) = [current_page]"
    and "\<exists>mid. trace s2 = trace s @ mid \<and> visits mid = [current_page] 
            \<and> requests mid = [(current_page, None)]"
    and "appends rob f s s'"
    and "visited_pages v' = visited_pages v @ [current_page]"
    and "count_links v' = count_links v
           + length (checks (set_iter (pair_order w (trace s2)) page_links))"
    and "set (links_to_crawl v') = set (links_to_crawl v)
          \<union> {l \<in> snd ` set page_links. \<not> prefix blocklist_prefix l
                \<and> is_same_or_subpath l base_url
                \<and> l \<notin> set (visited_pages v) \<and> l \<noteq> current_page}"
    and "state_file s' = Some (visited_pages v', links_to_crawl v')"
proof -
  define v1 where "v1 = v\<lparr>visited_pages := set_add current_page (visited_pages v)\<rparr>"
  define ls where "ls = set_iter (pair_order w (trace s2)) page_links"
  obtain v2 s3 where loop: "check_page_links w base_url f rob ls (v1, s2) = (v2, s3)"
    by (cases "check_page_links w base_url f rob ls (v1, s2)")
  from page new_page in_scope body loop
  have res: "v' = v2" "s' = save_state (visited_pages v2) (links_to_crawl v2) s3"
    by (auto simp: crawl_page_def v1_def ls_def Let_def)
  note eff = check_page_links_effect [OF loop]
  have v1: "visited_pages v1 = visited_pages v @ [current_page]"
    "links_to_crawl v1 = links_to_crawl v" "count_links v1 = count_links v"
    using new_page by (simp_all add: v1_def set_add_def)
  have ls: "set ls = set page_links"
    by (simp add: ls_def set_iter_set_distinct)
  from eff res show "\<exists>new. trace s' = trace s2 @ new \<and> visits new = []
            \<and> requests new = checks (set_iter (pair_order w (trace s2)) page_links)"
    by (simp add: ls_def)
  have "requests (new_events (py_print (''Crawling and checking links on: '' @ current_page) s)
           (snd (get_body_links w current_page base_url menu_links
              (py_print (''Crawling and checking links on: '' @ current_page) s))))
          = [(current_page, None)]"
    by (simp add: get_body_links_def requests_get_def new_events_def 
        split: fetch_result.splits)
  moreover from get_body_links_effect(1) [OF body]
  obtain mid where mid: "trace s2 = trace s @ Print (''Crawling and checking links on: '' @ current_page) # mid"
    "visits mid = []"
    by (auto simp: quiet_def)
  ultimately show "\<exists>mid. trace s2 = trace s @ mid \<and> visits mid = [current_page] 
            \<and> requests mid = [(current_page, None)]"
    using body by (simp add: new_events_def)
  from mid show "visits (new_events s s2) = [current_page]"
    by (simp add: new_events_def)
  have "appends rob f s s2"
    using get_body_links_effect(2) [OF body] by (simp add: appends_def)
  moreover have "appends rob f s3 s'"
    using res by (simp add: appends_def)
  ultimately show "appends rob f s s'"
    using eff by (blast intro: appends_trans)
  from eff res v1 show "visited_pages v' = visited_pages v @ [current_page]"
    by simp
  from eff res v1 show "count_links v' = count_links v
           + length (checks (set_iter (pair_order w (trace s2)) page_links))"
    by (simp add: ls_def)
  from eff res v1 ls show "set (links_to_crawl v') = set (links_to_crawl v)
          \<union> {l \<in> snd ` set page_links. \<not> prefix blocklist_prefix l
                \<and> is_same_or_subpath l base_url
                \<and> l \<notin> set (visited_pages v) \<and> l \<noteq> current_page}"
    by auto
  from res show "state_file s' = Some (visited_pages v', links_to_crawl v')"
    by simp
qed

subsection \<open>The invariant of the loop\<close>

text \<open>
  \<open>run_inv\<close> holds between a state and itself, composes, and holds across one
  iteration; so it holds between the start of the loop and the state after any number of
  iterations.
\<close>

lemma run_inv_refl: "run_inv rob f base_url st st"
  by (simp add: run_inv_def)

lemma run_inv_trans:
  assumes "run_inv rob f base_url st st1" and "run_inv rob f base_url st1 st2"
  shows "run_inv rob f base_url st st2"
proof -
  from assms(1) obtain n1 where n1: "trace (snd st1) = trace (snd st) @ n1"
    "visited_pages (fst st1) = visited_pages (fst st) @ visits n1"
    "distinct (visits n1)" "set (visits n1) \<inter> set (visited_pages (fst st)) = {}"
    "count_links (fst st1)
       = count_links (fst st) + length (filter (\<lambda>r. snd r = Some 10) (requests n1))"
    unfolding run_inv_def by blast
  from assms(2) obtain n2 where n2: "trace (snd st2) = trace (snd st1) @ n2"
    "visited_pages (fst st2) = visited_pages (fst st1) @ visits n2"
    "distinct (visits n2)" "set (visits n2) \<inter> set (visited_pages (fst st1)) = {}"
    "count_links (fst st2)
       = count_links (fst st1) + length (filter (\<lambda>r. snd r = Some 10) (requests n2))"
    unfolding run_inv_def by blast
  have a: "trace (snd st2) = trace (snd st) @ (n1 @ n2)"
    using n1(1) n2(1) by simp
  have b: "visited_pages (fst st2) = visited_pages (fst st) @ visits (n1 @ n2)"
    using n1(2) n2(2) by simp
  have c: "distinct (visits (n1 @ n2))"
    using n1(2,3) n2(3,4) by auto
  have d: "set (visits (n1 @ n2)) \<inter> set (visited_pages (fst st)) = {}"
    using n1(2,4) n2(4) by auto
  have e: "count_links (fst st2)
       = count_links (fst st) + length (filter (\<lambda>r. snd r = Some 10) (requests (n1 @ n2)))"
    using n1(5) n2(5) by simp
  have f: "appends rob f (snd st) (snd st2)"
    using assms by (auto simp: run_inv_def intro: appends_trans)
  have g: "set (links_to_crawl (fst st2))
          \<subseteq> set (links_to_crawl (fst st)) \<union> {l. is_same_or_subpath l base_url}"
    using assms unfolding run_inv_def by blast
  from a b c d e f g show ?thesis
    unfolding run_inv_def by blast
qed

lemma filter_checks [simp]: "filter (\<lambda>r. snd r = Some 10) (checks ls) = checks ls"
  by (induction ls) auto

lemma crawl_iteration_inv:
  assumes "crawl_iteration w base_url f rob menu_links st = Some st'"
  shows "run_inv rob f base_url st st'"
proof -
  obtain v s where st: "st = (v, s)" by (cases st)
  obtain v' s' where st': "st' = (v', s')" by (cases st')
  from assms st obtain current_page rest
    where pop: "set_pop (str_order w (trace s)) (links_to_crawl v) = Some (current_page, rest)"
      and page: "crawl_page w base_url f rob menu_links current_page
                   (v\<lparr>links_to_crawl := rest\<rparr>, s) = st'"
    by (auto simp: crawl_iteration_def split: option.splits)
  note popped = set_pop_Some [OF pop]
  define v0 where "v0 = v\<lparr>links_to_crawl := rest\<rparr>"
  have v0: "visited_pages v0 = visited_pages v" "count_links v0 = count_links v"
    "set (links_to_crawl v0) \<subseteq> set (links_to_crawl v)"
    using popped by (auto simp: v0_def)
  show ?thesis
  proof (cases "current_page \<notin> set (visited_pages v) \<and> is_same_or_subpath current_page base_url")
    case False
    then have "crawl_page w base_url f rob menu_links current_page (v0, s) = (v0, s)"
      using v0(1) by (intro crawl_page_skip) simp
    with page have "st' = (v0, s)" by (simp add: v0_def)
    with v0 st show ?thesis
      by (auto simp: run_inv_def)
  next
    case True
    obtain page_links s2 where body: "get_body_links w current_page base_url menu_links
        (py_print (''Crawling and checking links on: '' @ current_page) s) = (page_links, s2)"
      by (cases "get_body_links w current_page base_url menu_links
        (py_print (''Crawling and checking links on: '' @ current_page) s)")
    from True v0 have new_page: "current_page \<notin> set (visited_pages v0)"
      and in_scope: "is_same_or_subpath current_page base_url"
      by simp_all
    from page st' have page': "crawl_page w base_url f rob menu_links current_page (v0, s)
        = (v', s')"
      by (simp add: v0_def)
    note eff = crawl_page_visit [OF new_page in_scope body page']
    from eff(1) obtain new where new: "trace s' = trace s2 @ new" "visits new = []"
      "requests new = checks (set_iter (pair_order w (trace s2)) page_links)"
      by blast
    from eff(3) obtain mid where mid: "trace s2 = trace s @ mid" "visits mid = [current_page]"
      "requests mid = [(current_page, None)]"
      by blast
    have a: "trace s' = trace s @ (mid @ new)"
      using new mid by simp
    have b: "visits (mid @ new) = [current_page]"
      using new mid by simp
    have c: "length (filter (\<lambda>r. snd r = Some 10) (requests (mid @ new)))
        = length (checks (set_iter (pair_order w (trace s2)) page_links))"
      using new mid by simp
    have d: "set (links_to_crawl v') \<subseteq> set (links_to_crawl v) \<union> {l. is_same_or_subpath l base_url}"
      using eff(7) v0(3) by auto
    from a b c d eff(4,5,6) v0 True show ?thesis
      unfolding run_inv_def st st' by (intro conjI exI [of _ "mid @ new"]) simp_all
  qed
qed

lemma crawl_steps_inv: "run_inv rob f base_url st (crawl_steps k w base_url f rob menu_links st)"
proof (induction k arbitrary: st)
  case 0
  show ?case by (simp add: run_inv_refl)
next
  case (Suc k)
  show ?case
  proof (cases "crawl_iteration w base_url f rob menu_links st")
    case None
    then show ?thesis by (simp add: run_inv_refl)
  next
    case (Some st1)
    then have "run_inv rob f base_url st st1"
      by (rule crawl_iteration_inv)
    moreover have "run_inv rob f base_url st1 (crawl_steps k w base_url f rob menu_links st1)"
      by (rule Suc.IH)
    ultimately show ?thesis
      using Some by (simp add: run_inv_trans)
  qed
qed

text \<open>
  The loop and its prefixes: if the loop ends, its result is the state after some number
  of iterations, and no iteration is left; and if no iteration is left after \<open>k\<close>
  of them, the loop ends with that state.
\<close>

lemma crawl_loop_steps:
  assumes "crawl_loop w base_url f rob menu_links st = Some st'"
  shows "\<exists>k. st' = crawl_steps k w base_url f rob menu_links st
           \<and> crawl_iteration w base_url f rob menu_links st' = None"
proof (rule crawl_loop.raw_induct
    [where P = "\<lambda>w base_url f rob menu_links st st'.
         \<exists>k. st' = crawl_steps k w base_url f rob menu_links st
           \<and> crawl_iteration w base_url f rob menu_links st' = None", OF _ assms])
  fix loop w base_url f rob menu_links and st st' :: "vars \<times> sys"
  assume IH: "\<And>w base_url f rob menu_links st st'.
      loop w base_url f rob menu_links st = Some st' \<Longrightarrow>
      \<exists>k. st' = crawl_steps k w base_url f rob menu_links st
           \<and> crawl_iteration w base_url f rob menu_links st' = None"
    and eq: "(case crawl_iteration w base_url f rob menu_links st of
        None \<Rightarrow> Some st
      | Some st1 \<Rightarrow> loop w base_url f rob menu_links st1) = Some st'"
  show "\<exists>k. st' = crawl_steps k w base_url f rob menu_links st
           \<and> crawl_iteration w base_url f rob menu_links st' = None"
  proof (cases "crawl_iteration w base_url f rob menu_links st")
    case None
    with eq have "st' = crawl_steps 0 w base_url f rob menu_links st" by simp
    with None eq show ?thesis by (intro exI [of _ 0]) simp
  next
    case (Some st1)
    with eq have "loop w base_url f rob menu_links st1 = Some st'" by simp
    from IH [OF this] obtain k where "st' = crawl_steps k w base_url f rob menu_links st1"
      "crawl_iteration w base_url f rob menu_links st' = None"
      by blast
    with Some show ?thesis by (intro exI [of _ "Suc k"]) simp
  qed
qed

lemma crawl_steps_done:
  assumes "crawl_iteration w base_url f rob menu_links (crawl_steps k w base_url f rob menu_links st) = None"
  shows "crawl_loop w base_url f rob menu_links st
           = Some (crawl_steps k w base_url f rob menu_links st)"
  using assms
proof (induction k arbitrary: st)
  case 0
  then show ?case by (subst crawl_loop.simps) simp
next
  case (Suc k)
  show ?case
  proof (cases "crawl_iteration w base_url f rob menu_links st")
    case None
    then show ?thesis by (subst crawl_loop.simps) simp
  next
    case (Some st1)
    with Suc.prems have "crawl_iteration w base_url f rob menu_links
        (crawl_steps k w base_url f rob menu_links st1) = None"
      by simp
    from Suc.IH [OF this] Some show ?thesis
      by (subst crawl_loop.simps) simp
  qed
qed

subsection \<open>The menu pass and the start of a run\<close>

lemma check_menu_links_effect:
  "check_menu_links w start_url ls (res, s) = (res', s') \<Longrightarrow>
     quiet s s' \<and> csv_files s' = csv_files s \<and> state_file s' = state_file s
     \<and> (\<exists>more. res' = res @ more
           \<and> (\<forall>r \<in> set more. snd (snd r) = ''Working'' \<or> snd (snd r) = ''Broken''))"
proof (induction ls arbitrary: res s)
  case Nil
  then show ?case by simp
next
  case (Cons menu_link ls)
  obtain status s1 where cl: "check_link w menu_link s = (status, s1)"
    by (cases "check_link w menu_link s")
  note eff = check_link_effect [OF cl]
  define s2 where
    "s2 = py_print (status @ '': '' @ menu_link @ '' (found in menu on '' @ start_url @ '')'') s1"
  from Cons.prems cl
  have "check_menu_links w start_url ls (res @ [(start_url, menu_link, status)], s2) = (res', s')"
    by (simp add: s2_def)
  note IH = Cons.IH [OF this]
  have "visits [HttpGet menu_link (Some 10),
      Print (status @ '': '' @ menu_link @ '' (found in menu on '' @ start_url @ '')'')] = []"
    using eff(4) by auto
  then have "quiet s s2"
    using eff(1) by (simp add: quiet_def s2_def)
  with IH have 1: "quiet s s'"
    by (blast intro: quiet_trans)
  have 2: "csv_files s' = csv_files s" "state_file s' = state_file s"
    using IH eff(2,3) by (simp_all add: s2_def)
  from IH obtain more where more: "res' = (res @ [(start_url, menu_link, status)]) @ more"
    "\<forall>r \<in> set more. snd (snd r) = ''Working'' \<or> snd (snd r) = ''Broken''"
    by blast
  have 3: "\<exists>more. res' = res @ more
           \<and> (\<forall>r \<in> set more. snd (snd r) = ''Working'' \<or> snd (snd r) = ''Broken'')"
    using more eff(4) by (intro exI [of _ "(start_url, menu_link, status) # more"]) simp
  from 1 2 3 show ?case by blast
qed

lemma write_menu_results_effect:
  "\<forall>r \<in> set res. snd (snd r) = ''Working'' \<or> snd (snd r) = ''Broken'' \<Longrightarrow>
     trace (write_menu_results f rob res s) = trace s
     \<and> state_file (write_menu_results f rob res s) = state_file s
     \<and> appends rob f s (write_menu_results f rob res s)"
proof (induction res arbitrary: s)
  case Nil
  then show ?case by simp
next
  case (Cons r res)
  obtain source link status where r: "r = (source, link, status)"
    by (cases r)
  define s1 where
    "s1 = (if \<not> rob \<or> status = ''Broken'' then writerow f [source, link, status] s else s)"
  from Cons.prems r have status: "status = ''Working'' \<or> status = ''Broken''"
    by simp
  have unfold: "write_menu_results f rob (r # res) s = write_menu_results f rob res s1"
    by (simp add: r s1_def)
  from Cons.prems have "\<forall>r \<in> set res. snd (snd r) = ''Working'' \<or> snd (snd r) = ''Broken''"
    by simp
  note IH = Cons.IH [OF this, of s1]
  have "appends rob f s s1"
    using status by (auto simp: s1_def appends_def data_row_def)
  with IH have "appends rob f s (write_menu_results f rob res s1)"
    by (blast intro: appends_trans)
  moreover have "trace s1 = trace s" "state_file s1 = state_file s"
    by (simp_all add: s1_def)
  ultimately show ?case
    using IH unfold by simp
qed

lemma menu_pass_effect:
  assumes "menu_pass w start_url f rob s = (menu_links, s')"
  shows "quiet s s'" and "state_file s' = state_file s"
    and "\<exists>rows. csv_files s' f = csv_files s f @ header_row # rows \<and> list_all (data_row rob) rows"
proof -
  obtain links s1 where ex: "extract_menu_links w start_url s = (links, s1)"
    by (cases "extract_menu_links w start_url s")
  obtain res s2 where chk: "check_menu_links w start_url
      (set_iter (str_order w (trace s1)) links) ([], s1) = (res, s2)"
    by (cases "check_menu_links w start_url (set_iter (str_order w (trace s1)) links) ([], s1)")
  define s3 where "s3 = writerow f [''Source Page'', ''Link URL'', ''Status''] s2"
  from assms ex chk have s': "s' = write_menu_results f rob res s3"
    by (simp add: menu_pass_def s3_def)
  note e1 = extract_menu_links_effect [OF ex]
  note e2 = check_menu_links_effect [OF chk]
  from e2 have res: "\<forall>r \<in> set res. snd (snd r) = ''Working'' \<or> snd (snd r) = ''Broken''"
    by auto
  note e3 = write_menu_results_effect [OF res, of f rob s3]
  have "quiet s2 s'"
    using e3 by (simp add: s' s3_def quiet_def)
  with e1(1) e2 show "quiet s s'"
    by (blast intro: quiet_trans)
  show "state_file s' = state_file s"
    using e1(3) e2 e3 by (simp add: s' s3_def)
  have "csv_files s3 f = csv_files s f @ [header_row]"
    using e1(2) e2 by (simp add: s3_def header_row_def)
  moreover from e3 obtain rows where "csv_files s' f = csv_files s3 f @ rows"
    "list_all (data_row rob) rows"
    by (auto simp: appends_def s')
  ultimately show "\<exists>rows. csv_files s' f = csv_files s f @ header_row # rows
      \<and> list_all (data_row rob) rows"
    by simp
qed

lemma crawl_init_effect:
  assumes "crawl_init w start_url f rob s = (menu_links, v0, s0)"
  shows "visited_pages v0 = fst (load_state s)" and "count_links v0 = 0"
    and "quiet s s0"
    and "\<exists>rows. csv_files s0 f
           = csv_files s f @ (if fst (load_state s) = [] then [header_row] else []) @ rows
         \<and> list_all (data_row rob) rows"
proof -
  obtain visited loaded where ld: "load_state s = (visited, loaded)"
    by (cases "load_state s")
  show "visited_pages v0 = fst (load_state s)" and "count_links v0 = 0"
    using assms ld by (auto simp: crawl_init_def Let_def split: prod.splits)
  show "quiet s s0"
  proof (cases "visited = []")
    case True
    obtain m s1 where mp: "menu_pass w start_url f rob s = (m, s1)"
      by (cases "menu_pass w start_url f rob s")
    with assms ld True have "s0 = s1"
      by (simp add: crawl_init_def Let_def)
    with menu_pass_effect(1) [OF mp] show ?thesis by simp
  next
    case False
    with assms ld have "s0 = s"
      by (simp add: crawl_init_def Let_def)
    then show ?thesis by simp
  qed
  show "\<exists>rows. csv_files s0 f
           = csv_files s f @ (if fst (load_state s) = [] then [header_row] else []) @ rows
         \<and> list_all (data_row rob) rows"
  proof (cases "visited = []")
    case True
    obtain m s1 where mp: "menu_pass w start_url f rob s = (m, s1)"
      by (cases "menu_pass w start_url f rob s")
    with assms ld True have "s0 = s1"
      by (simp add: crawl_init_def Let_def)
    with menu_pass_effect(3) [OF mp] ld True show ?thesis by simp
  next
    case False
    with assms ld have "s0 = s"
      by (simp add: crawl_init_def Let_def)
    with ld False show ?thesis by simp
  qed
qed

subsection \<open>The whole run\<close>

lemma visit_of_total [simp]: "visit_of (Print (''Total number of links checked: '' @ n)) = []"
  by simp

lemma crawl_website_prefix:
  assumes "crawl_website w start_url base_url f rob s = Some s'"
  shows "\<exists>k v s1. crawl_prefix k w start_url base_url f rob s = (v, s1)
           \<and> s' = py_print (''Total number of links checked: '' @ str_nat (count_links v)) s1
           \<and> links_to_crawl v = []"
proof -
  obtain menu_links st where init: "crawl_init w start_url f rob s = (menu_links, st)"
    by (cases "crawl_init w start_url f rob s")
  from assms init obtain v s1 where loop: "crawl_loop w base_url f rob menu_links st = Some (v, s1)"
    and s': "s' = py_print (''Total number of links checked: '' @ str_nat (count_links v)) s1"
    by (auto simp: crawl_website_def split: option.splits)
  from crawl_loop_steps [OF loop] obtain k
    where k: "(v, s1) = crawl_steps k w base_url f rob menu_links st"
      and stop: "crawl_iteration w base_url f rob menu_links (v, s1) = None"
    by blast
  from stop have "links_to_crawl v = []"
    by (auto simp: crawl_iteration_def set_pop_def Let_def split: option.splits if_splits)
  moreover from k init have "crawl_prefix k w start_url base_url f rob s = (v, s1)"
    by (simp add: crawl_prefix_def)
  ultimately show ?thesis
    using s' by blast
qed

lemma crawl_prefix_inv:
  assumes "crawl_prefix k w start_url base_url f rob s = (v, s')"
  shows "\<exists>new. trace s' = trace s @ new
           \<and> visited_pages v = fst (load_state s) @ visits new
           \<and> distinct (visits new)
           \<and> set (visits new) \<inter> set (fst (load_state s)) = {}"
    and "\<exists>rows. csv_files s' f
           = csv_files s f @ (if fst (load_state s) = [] then [header_row] else []) @ rows
         \<and> list_all (data_row rob) rows"
proof -
  obtain menu_links v0 s0 where init: "crawl_init w start_url f rob s = (menu_links, v0, s0)"
    by (cases "crawl_init w start_url f rob s")
  with assms have steps: "crawl_steps k w base_url f rob menu_links (v0, s0) = (v, s')"
    by (simp add: crawl_prefix_def)
  note i = crawl_init_effect [OF init]
  have inv: "run_inv rob f base_url (v0, s0) (v, s')"
    using crawl_steps_inv [of rob f base_url "(v0, s0)" k w menu_links] steps by simp
  from i(3) obtain q where q: "trace s0 = trace s @ q" "visits q = []"
    by (auto simp: quiet_def)
  from inv obtain new where new: "trace s' = trace s0 @ new"
    "visited_pages v = visited_pages v0 @ visits new" "distinct (visits new)"
    "set (visits new) \<inter> set (visited_pages v0) = {}"
    by (auto simp: run_inv_def)
  from q new i(1) show "\<exists>new. trace s' = trace s @ new
           \<and> visited_pages v = fst (load_state s) @ visits new
           \<and> distinct (visits new)
           \<and> set (visits new) \<inter> set (fst (load_state s)) = {}"
    by (intro exI [of _ "q @ new"]) simp
  from i(4) obtain r0 where r0: "csv_files s0 f
      = csv_files s f @ (if fst (load_state s) = [] then [header_row] else []) @ r0"
    "list_all (data_row rob) r0"
    by blast
  from inv obtain r1 where r1: "csv_files s' f = csv_files s0 f @ r1" "list_all (data_row rob) r1"
    by (auto simp: run_inv_def appends_def)
  from r0 r1 show "\<exists>rows. csv_files s' f
           = csv_files s f @ (if fst (load_state s) = [] then [header_row] else []) @ rows
         \<and> list_all (data_row rob) rows"
    by (intro exI [of _ "r0 @ r1"]) simp
qed

lemma data_row_not_header: "data_row rob r \<Longrightarrow> r \<noteq> header_row"
  by (auto simp: data_row_def header_row_def)

lemma count_header_data_rows: "list_all (data_row rob) rows \<Longrightarrow> count_list rows header_row = 0"
  by (induction rows) (auto dest: data_row_not_header)

lemma crawl_prefix_rows:
  assumes "crawl_prefix k w start_url base_url f rob s = (v, s')"
  shows "headers_written f s s' = (if fst (load_state s) = [] then 1 else 0)"
    and "fst (load_state s) = [] \<Longrightarrow> take 1 (new_rows f s s') = [header_row]"
    and "\<forall>r \<in> set (new_rows f s s'). r = header_row \<or> data_row rob r"
proof -
  from crawl_prefix_inv(2) [OF assms] obtain rows
    where rows: "csv_files s' f
           = csv_files s f @ (if fst (load_state s) = [] then [header_row] else []) @ rows"
      "list_all (data_row rob) rows"
    by blast
  then have new: "new_rows f s s' = (if fst (load_state s) = [] then [header_row] else []) @ rows"
    by (simp add: new_rows_def)
  from new rows(2) show "headers_written f s s' = (if fst (load_state s) = [] then 1 else 0)"
    by (simp add: headers_written_def count_header_data_rows)
  from new show "fst (load_state s) = [] \<Longrightarrow> take 1 (new_rows f s s') = [header_row]"
    by simp
  from new rows(2) show "\<forall>r \<in> set (new_rows f s s'). r = header_row \<or> data_row rob r"
    by (auto simp: list_all_iff)
qed

lemma crawl_website_rows:
  assumes "crawl_website w start_url base_url f rob s = Some s'"
  shows "\<exists>k v s1. crawl_prefix k w start_url base_url f rob s = (v, s1)
           \<and> new_rows f s s' = new_rows f s s1
           \<and> visits (new_events s s') = visits (new_events s s1)"
proof -
  from crawl_website_prefix [OF assms] obtain k v s1
    where k: "crawl_prefix k w start_url base_url f rob s = (v, s1)"
      and s': "s' = py_print (''Total number of links checked: '' @ str_nat (count_links v)) s1"
    by blast
  from crawl_prefix_inv(1) [OF k] obtain new where new: "trace s1 = trace s @ new"
    by blast
  have "new_rows f s s' = new_rows f s s1"
    by (simp add: s' new_rows_def)
  moreover have "visits (new_events s s') = visits (new_events s s1)"
    using new by (simp add: s' new_events_def)
  ultimately show ?thesis
    using k by blast
qed

lemma get_body_links_first_event:
  "\<exists>rest. trace (snd (get_body_links w url base_url menu_links s)) = trace s @ HttpGet url None # rest"
  by (simp add: get_body_links_def requests_get_def split: fetch_result.splits)

lemma crawl_page_first_events:
  assumes "current_page \<notin> set (visited_pages v)"
      and "is_same_or_subpath current_page base_url"
  shows "visited_pages (fst (crawl_page w base_url f rob menu_links current_page (v, s)))
           = visited_pages v @ [current_page]
         \<and> take 2 (new_events s (snd (crawl_page w base_url f rob menu_links current_page (v, s))))
           = [Print (''Crawling and checking links on: '' @ current_page),
              HttpGet current_page None]"
proof -
  define s1 where "s1 = py_print (''Crawling and checking links on: '' @ current_page) s"
  obtain page_links s2 where body: "get_body_links w current_page base_url menu_links s1
      = (page_links, s2)"
    by (cases "get_body_links w current_page base_url menu_links s1")
  obtain v' s' where page: "crawl_page w base_url f rob menu_links current_page (v, s) = (v', s')"
    by (cases "crawl_page w base_url f rob menu_links current_page (v, s)")
  note eff = crawl_page_visit [OF assms body [unfolded s1_def] page]
  from get_body_links_first_event [of w current_page base_url menu_links s1] body
  obtain rest where "trace s2 = trace s1 @ HttpGet current_page None # rest"
    by auto
  moreover from eff(1) obtain new where "trace s' = trace s2 @ new"
    by blast
  ultimately have "trace s' = trace s @ Print (''Crawling and checking links on: '' @ current_page)
      # HttpGet current_page None # rest @ new"
    by (simp add: s1_def)
  then have "take 2 (new_events s s')
      = [Print (''Crawling and checking links on: '' @ current_page), HttpGet current_page None]"
    by (simp add: new_events_def)
  with eff(5) page show ?thesis
    by simp
qed

lemma crawl_steps_visited_grows:
  "prefix (visited_pages (fst st))
     (visited_pages (fst (crawl_steps j w base_url f rob menu_links st)))"
  using crawl_steps_inv [of rob f base_url st j w menu_links]
  by (auto simp: run_inv_def)

text \<open>
  C1. In a run of \<open>crawl_website\<close>, cut after any number \<open>k\<close> of iterations of the
  loop or run to its end, the pages announced as visited are pairwise different and none
  of them was in the visited set that the run loaded; the visited set is the loaded one
  followed by exactly these pages, in the order of their visits. A page popped from the
  frontier that is in the visited set already is dropped with no effect at all. A page
  that is visited enters the visited set at that moment, and the first two things the
  visit does are to announce it and to fetch its body links. From any state of the loop
  on, the visited set only grows: what it holds after further iterations extends what
  it held.
\<close>

theorem no_page_visited_twice:
  "(case crawl_prefix k w start_url base_url f rob s of
      (v, s') \<Rightarrow>
        visited_pages v = fst (load_state s) @ visits (new_events s s')
        \<and> distinct (visits (new_events s s'))
        \<and> set (visits (new_events s s')) \<inter> set (fst (load_state s)) = {})
   \<and> (\<forall>s'. crawl_website w start_url base_url f rob s = Some s' \<longrightarrow>
         distinct (visits (new_events s s'))
         \<and> set (visits (new_events s s')) \<inter> set (fst (load_state s)) = {})
   \<and> (current_page \<in> set (visited_pages v0) \<longrightarrow>
         crawl_page w base_url f rob menu_links current_page (v0, s0) = (v0, s0))
   \<and> (current_page \<notin> set (visited_pages v0) \<and> is_same_or_subpath current_page base_url \<longrightarrow>
         visited_pages (fst (crawl_page w base_url f rob menu_links current_page (v0, s0)))
           = visited_pages v0 @ [current_page]
         \<and> take 2 (new_events s0
               (snd (crawl_page w base_url f rob menu_links current_page (v0, s0))))
           = [Print (''Crawling and checking links on: '' @ current_page),
              HttpGet current_page None])
   \<and> prefix (visited_pages v0)
        (visited_pages (fst (crawl_steps j w base_url f rob menu_links (v0, s0))))"
proof -
  have prefix: "visited_pages v = fst (load_state s) @ visits (new_events s s')
        \<and> distinct (visits (new_events s s'))
        \<and> set (visits (new_events s s')) \<inter> set (fst (load_state s)) = {}"
    if "crawl_prefix k w start_url base_url f rob s = (v, s')" for k v s'
  proof -
    from crawl_prefix_inv(1) [OF that] obtain new where "trace s' = trace s @ new"
      "visited_pages v = fst (load_state s) @ visits new" "distinct (visits new)"
      "set (visits new) \<inter> set (fst (load_state s)) = {}"
      by blast
    then show ?thesis by simp
  qed
  have 1: "case crawl_prefix k w start_url base_url f rob s of
      (v, s') \<Rightarrow>
        visited_pages v = fst (load_state s) @ visits (new_events s s')
        \<and> distinct (visits (new_events s s'))
        \<and> set (visits (new_events s s')) \<inter> set (fst (load_state s)) = {}"
    using prefix [of k] by (cases "crawl_prefix k w start_url base_url f rob s") simp
  have 2: "distinct (visits (new_events s s'))
         \<and> set (visits (new_events s s')) \<inter> set (fst (load_state s)) = {}"
    if "crawl_website w start_url base_url f rob s = Some s'" for s'
  proof -
    from crawl_website_rows [OF that] obtain k v s1
      where "crawl_prefix k w start_url base_url f rob s = (v, s1)"
        "visits (new_events s s') = visits (new_events s s1)"
      by blast
    with prefix [of k v s1] show ?thesis by simp
  qed
  have 3: "crawl_page w base_url f rob menu_links current_page (v0, s0) = (v0, s0)"
    if "current_page \<in> set (visited_pages v0)"
    using that by (intro crawl_page_skip) simp
  have 4: "visited_pages (fst (crawl_page w base_url f rob menu_links current_page (v0, s0)))
           = visited_pages v0 @ [current_page]
         \<and> take 2 (new_events s0
               (snd (crawl_page w base_url f rob menu_links current_page (v0, s0))))
           = [Print (''Crawling and checking links on: '' @ current_page),
              HttpGet current_page None]"
    if "current_page \<notin> set (visited_pages v0) \<and> is_same_or_subpath current_page base_url"
    using that by (intro crawl_page_first_events) simp_all
  have 5: "prefix (visited_pages v0)
        (visited_pages (fst (crawl_steps j w base_url f rob menu_links (v0, s0))))"
    using crawl_steps_visited_grows [of "(v0, s0)"] by simp
  from 1 2 3 4 5 show ?thesis by blast
qed

theorem no_page_visited_twice_witness:
  "visited_pages (fst (crawl_prefix 2 demo_site ''http://h/'' ''http://h/'' ''report.csv'' True resumed))
     = [''http://h/about'', ''http://h/'', ''http://h/contact'']
   \<and> distinct (visits (new_events resumed
        (the (crawl_website demo_site ''http://h/'' ''http://h/'' ''report.csv'' True resumed))))
   \<and> set (visits (new_events resumed
        (the (crawl_website demo_site ''http://h/'' ''http://h/'' ''report.csv'' True resumed))))
      \<inter> {''http://h/about''} = {}
   \<and> crawl_page demo_site ''http://h/'' ''report.csv'' True [] ''http://h/about''
        (\<lparr>visited_pages = [''http://h/about''], links_to_crawl = [], count_links = 0\<rparr>, resumed)
      = (\<lparr>visited_pages = [''http://h/about''], links_to_crawl = [], count_links = 0\<rparr>, resumed)
   \<and> visited_pages (fst (crawl_page demo_site ''http://h/'' ''report.csv'' True []
        ''http://h/contact''
        (\<lparr>visited_pages = [''http://h/about''], links_to_crawl = [], count_links = 0\<rparr>, resumed)))
      = [''http://h/about'', ''http://h/contact'']
   \<and> take 2 (new_events resumed (snd (crawl_page demo_site ''http://h/'' ''report.csv'' True []
        ''http://h/contact''
        (\<lparr>visited_pages = [''http://h/about''], links_to_crawl = [], count_links = 0\<rparr>, resumed))))
      = [Print ''Crawling and checking links on: http://h/contact'',
         HttpGet ''http://h/contact'' None]"
proof -
  have ends: "crawl_website demo_site ''http://h/'' ''http://h/'' ''report.csv'' True resumed
      = Some (the (crawl_website demo_site ''http://h/'' ''http://h/'' ''report.csv'' True resumed))"
  proof -
    have "crawl_website demo_site ''http://h/'' ''http://h/'' ''report.csv'' True resumed \<noteq> None"
      by code_simp
    then show ?thesis by simp
  qed
  have loaded: "fst (load_state resumed) = [''http://h/about'']"
    by (simp add: load_state_def resumed_def)
  have seen: "visits (new_events resumed
      (snd (crawl_prefix 2 demo_site ''http://h/'' ''http://h/'' ''report.csv'' True resumed)))
      = [''http://h/'', ''http://h/contact'']"
    by code_simp
  have old: "''http://h/about'' \<in> set (visited_pages
      \<lparr>visited_pages = [''http://h/about''], links_to_crawl = [], count_links = 0\<rparr>)"
    by simp
  have new: "''http://h/contact'' \<notin> set (visited_pages
      \<lparr>visited_pages = [''http://h/about''], links_to_crawl = [], count_links = 0\<rparr>)
      \<and> is_same_or_subpath ''http://h/contact'' ''http://h/''"
    by (simp add: is_same_or_subpath_def)
  show ?thesis
    using no_page_visited_twice [where k = 2 and w = demo_site and start_url = "''http://h/''"
        and base_url = "''http://h/''" and f = "''report.csv''" and rob = True and s = resumed
        and current_page = "''http://h/about''" and menu_links = "[]" and ?s0.0 = resumed
        and ?v0.0 = "\<lparr>visited_pages = [''http://h/about''], links_to_crawl = [],
          count_links = 0\<rparr>"]
      no_page_visited_twice [where k = 2 and w = demo_site and start_url = "''http://h/''"
        and base_url = "''http://h/''" and f = "''report.csv''" and rob = True and s = resumed
        and current_page = "''http://h/contact''" and menu_links = "[]" and ?s0.0 = resumed
        and ?v0.0 = "\<lparr>visited_pages = [''http://h/about''], links_to_crawl = [],
          count_links = 0\<rparr>"]
      ends loaded seen old new
    by (simp add: case_prod_beta)
qed

subsection \<open>Checking and enqueueing the body links of a page\<close>



subsection \<open>The report\<close>




text \<open>
  C8. With \<open>record_only_broken\<close> true, every row that a run adds to the report, in the
  menu pass and in the loop, is the header row or a row with status \<^verbatim>\<open>Broken\<close>; no row
  with status \<^verbatim>\<open>Working\<close> is added. This holds for the run cut after any number of
  iterations and for the run that ends.
\<close>

theorem only_broken_rows_recorded:
  "(case crawl_prefix k w start_url base_url f True s of
      (v, s') \<Rightarrow>
        (\<forall>r \<in> set (new_rows f s s'). r = header_row \<or> (\<exists>source link. r = [source, link, ''Broken'']))
        \<and> (\<forall>source link. [source, link, ''Working''] \<notin> set (new_rows f s s')))
   \<and> (\<forall>s'. crawl_website w start_url base_url f True s = Some s' \<longrightarrow>
        (\<forall>r \<in> set (new_rows f s s'). r = header_row \<or> (\<exists>source link. r = [source, link, ''Broken'']))
        \<and> (\<forall>source link. [source, link, ''Working''] \<notin> set (new_rows f s s')))"
proof -
  have rows: "(\<forall>r \<in> set (new_rows f s s'). r = header_row \<or> (\<exists>source link. r = [source, link, ''Broken'']))
        \<and> (\<forall>source link. [source, link, ''Working''] \<notin> set (new_rows f s s'))"
    if "crawl_prefix k w start_url base_url f True s = (v, s')" for k v s'
  proof -
    from crawl_prefix_rows(3) [OF that]
    have all: "\<forall>r \<in> set (new_rows f s s'). r = header_row \<or> data_row True r" .
    then have "\<forall>r \<in> set (new_rows f s s'). r = header_row \<or> (\<exists>source link. r = [source, link, ''Broken''])"
      by (auto simp: data_row_def)
    moreover have "[source, link, ''Working''] \<notin> set (new_rows f s s')" for source link
    proof
      assume "[source, link, ''Working''] \<in> set (new_rows f s s')"
      with all have "[source, link, ''Working''] = header_row \<or> data_row True [source, link, ''Working'']"
        by blast
      then show False
        by (simp add: header_row_def data_row_def)
    qed
    ultimately show ?thesis by blast
  qed
  have 1: "case crawl_prefix k w start_url base_url f True s of
      (v, s') \<Rightarrow>
        (\<forall>r \<in> set (new_rows f s s'). r = header_row \<or> (\<exists>source link. r = [source, link, ''Broken'']))
        \<and> (\<forall>source link. [source, link, ''Working''] \<notin> set (new_rows f s s'))"
    using rows [of k] by (cases "crawl_prefix k w start_url base_url f True s") simp
  have 2: "(\<forall>r \<in> set (new_rows f s s'). r = header_row \<or> (\<exists>source link. r = [source, link, ''Broken'']))
        \<and> (\<forall>source link. [source, link, ''Working''] \<notin> set (new_rows f s s'))"
    if "crawl_website w start_url base_url f True s = Some s'" for s'
  proof -
    from crawl_website_rows [OF that] obtain k v s1
      where "crawl_prefix k w start_url base_url f True s = (v, s1)"
        "new_rows f s s' = new_rows f s s1"
      by blast
    with rows [of k v s1] show ?thesis by simp
  qed
  from 1 2 show ?thesis by blast
qed

theorem only_broken_rows_recorded_witness:
  "[''http://h/'', ''http://h/about'', ''Working''] \<notin> set (new_rows ''report.csv'' fresh
      (the (crawl_website demo_site ''http://h/'' ''http://h/'' ''report.csv'' True fresh)))
   \<and> [''http://h/'', ''http://h/about'', ''Working''] \<notin> set (new_rows ''report.csv'' fresh
      (snd (crawl_prefix 1 demo_site ''http://h/'' ''http://h/'' ''report.csv'' True fresh)))
   \<and> new_rows ''report.csv'' fresh
      (the (crawl_website demo_site ''http://h/'' ''http://h/'' ''report.csv'' True fresh))
     = [header_row, [''http://h/'', ''http://h/contact'', ''Broken''],
        [''http://h/'', ''https://external.example/'', ''Broken'']]"
proof -
  have "crawl_website demo_site ''http://h/'' ''http://h/'' ''report.csv'' True fresh \<noteq> None"
    by code_simp
  then have ends: "crawl_website demo_site ''http://h/'' ''http://h/'' ''report.csv'' True fresh
      = Some (the (crawl_website demo_site ''http://h/'' ''http://h/'' ''report.csv'' True fresh))"
    by simp
  have rows: "new_rows ''report.csv'' fresh
      (the (crawl_website demo_site ''http://h/'' ''http://h/'' ''report.csv'' True fresh))
     = [header_row, [''http://h/'', ''http://h/contact'', ''Broken''],
        [''http://h/'', ''https://external.example/'', ''Broken'']]"
    by code_simp
  show ?thesis
    using only_broken_rows_recorded [where k = 1 and w = demo_site
        and start_url = "''http://h/''" and base_url = "''http://h/''" and f = "''report.csv''"
        and s = fresh] ends rows
    by (simp add: case_prod_beta header_row_def)
qed

subsection \<open>The summary line\<close>

text \<open>
  What the summary line does report: the number of \<open>check_link\<close> requests sent after
  the initial part of the run (the load and the menu pass), that is, in the loop.
\<close>

lemma summary_counts_loop_checks:
  assumes "crawl_website w start_url base_url f rob s = Some s'"
  shows "\<exists>menu_links v0 s0 new.
           crawl_init w start_url f rob s = (menu_links, v0, s0)
           \<and> trace s' = trace s0 @ new
                @ [Print (''Total number of links checked: '' @ str_nat (check_link_calls new))]"
proof -
  obtain menu_links v0 s0 where init: "crawl_init w start_url f rob s = (menu_links, v0, s0)"
    by (cases "crawl_init w start_url f rob s")
  from assms init obtain v s1
    where loop: "crawl_loop w base_url f rob menu_links (v0, s0) = Some (v, s1)"
      and s': "s' = py_print (''Total number of links checked: '' @ str_nat (count_links v)) s1"
    by (auto simp: crawl_website_def split: option.splits)
  from crawl_loop_steps [OF loop] obtain k
    where "(v, s1) = crawl_steps k w base_url f rob menu_links (v0, s0)"
    by blast
  with crawl_steps_inv [of rob f base_url "(v0, s0)" k w menu_links]
  have "run_inv rob f base_url (v0, s0) (v, s1)"
    by simp
  then obtain new where new: "trace s1 = trace s0 @ new"
    "count_links v = count_links v0 + check_link_calls new"
    by (auto simp: run_inv_def check_link_calls_def)
  from crawl_init_effect(2) [OF init] new s' init show ?thesis
    by simp
qed

text \<open>
  C4. The counter \<open>count_links\<close> is set to 0 after the menu pass and incremented in the
  loop only, so the checks of the menu pass are missing from the total. On a fresh run
  over the small site, \<open>check_link\<close> is called three times (once in the menu pass, for
  \<^verbatim>\<open>/about\<close>, and twice in the loop), and the summary line says 2.
\<close>

theorem summary_omits_menu_checks:
  "map_option trace
     (crawl_website demo_site ''http://h/'' ''http://h/'' ''report.csv'' False fresh)
     = Some [HttpGet ''http://h/'' None,
         HttpGet ''http://h/about'' (Some 10),
         Print ''Working: http://h/about (found in menu on http://h/)'',
         Print ''Crawling and checking links on: http://h/'',
         HttpGet ''http://h/'' None,
         HttpGet ''http://h/contact'' (Some 10),
         Print ''Broken: http://h/contact (found on http://h/)'',
         HttpGet ''https://external.example/'' (Some 10),
         Print ''Broken: https://external.example/ (found on http://h/)'',
         Print ''Crawling and checking links on: http://h/contact'',
         HttpGet ''http://h/contact'' None,
         Print ''Total number of links checked: 2'']
   \<and> map_option check_link_calls (map_option trace
       (crawl_website demo_site ''http://h/'' ''http://h/'' ''report.csv'' False fresh))
     = Some 3"
  by code_simp

end
